theory Spec2Isabelle
  imports Main
begin

section \<open>ardump: the table of contents of a BSD ar file\<close>

text \<open>
  A shallow embedding of \<^verbatim>\<open>src/ardump.c\<close>. The mapped file is a list of bytes; a pointer
  into it is its byte offset from \<^verbatim>\<open>file_start\<close>, an \<open>int\<close>, since the walker can
  move a pointer before the start of the file. \<^verbatim>\<open>contents_end\<close> is the length of the
  list.

  The C code dereferences pointers without comparing them with \<^verbatim>\<open>contents_end\<close>. A
  dereference outside the mapped file is undefined behaviour in C; the model stops there
  with \<open>Bad_read a\<close>, \<open>a\<close> being the offending offset. \<open>Bad_read\<close> is therefore not a
  diagnostic of the program: the program's diagnostics are the three calls of
  \<^verbatim>\<open>fatal\<close>.
\<close>

subsection \<open>Outcomes\<close>

datatype failure =
    Fatal_fmag      \<comment> \<open>\<^verbatim>\<open>fatal("unexpected ar_fmag\n")\<close>\<close>
  | Fatal_fat       \<comment> \<open>\<^verbatim>\<open>fatal("Fat archives are not supported by this tool.\n")\<close>\<close>
  | Fatal_magic     \<comment> \<open>\<^verbatim>\<open>fatal("File does not start with '%s'.\n", ARMAG)\<close>\<close>
  | Bad_read int    \<comment> \<open>undefined behaviour: a dereference outside the mapped file\<close>
  | Atoi_range      \<comment> \<open>undefined behaviour: \<^verbatim>\<open>atoi\<close> of a value that does not fit \<^verbatim>\<open>int\<close>\<close>

type_synonym buffer = string

definition bnd :: "failure + 'a \<Rightarrow> ('a \<Rightarrow> failure + 'b) \<Rightarrow> failure + 'b" where
  "bnd m f = (case m of Inl e \<Rightarrow> Inl e | Inr x \<Rightarrow> f x)"

definition NUL :: char where
  "NUL = CHR 0x00"

text \<open>\<^verbatim>\<open>*p\<close> for a \<^verbatim>\<open>char* p\<close>.\<close>

definition peek :: "buffer \<Rightarrow> int \<Rightarrow> failure + char" where
  "peek buf a =
     (if 0 \<le> a \<and> a < int (length buf) then Inr (buf ! nat a) else Inl (Bad_read a))"

text \<open>
  Sizes and the values of the file's 32-bit fields are \<open>int\<close>s that are not negative.
  The \<open>n\<close> bytes at \<open>a\<close>, as \<^verbatim>\<open>memcpy(dst, a, n)\<close> reads them (in ascending order; the
  failure names the first offset outside the file).
\<close>

definition memcpy :: "buffer \<Rightarrow> int \<Rightarrow> int \<Rightarrow> failure + string" where
  "memcpy buf a n =
     (if n \<le> 0 then Inr []
      else if a < 0 then Inl (Bad_read a)
      else if int (length buf) < a + n then Inl (Bad_read (max a (int (length buf))))
      else Inr (take (nat n) (drop (nat a) buf)))"

text \<open>
  \<^verbatim>\<open>*(uint32_t*)p\<close>. The source assumes that the file's byte order is the processor's
  (its comment in \<^verbatim>\<open>dump_symdefs\<close>); the processors of the systems it names (OS X 10.6 and
  later) are little-endian.
\<close>

definition le32 :: "string \<Rightarrow> int" where
  "le32 bs = foldr (\<lambda>c v. of_char c + 256 * v) bs 0"

definition read_u32 :: "buffer \<Rightarrow> int \<Rightarrow> failure + int" where
  "read_u32 buf a = bnd (memcpy buf a 4) (\<lambda>bs. Inr (le32 bs))"

subsection \<open>The C library: strncmp, strtol, atoi\<close>

text \<open>
  \<^verbatim>\<open>strncmp(p, lit, n)\<close> where \<open>p\<close> points into the file and \<open>lit\<close> is a string literal
  (the list holds the literal's characters; its terminating NUL is implicit). At most
  \<open>n\<close> characters are compared, and none after a NUL. The result is the difference of
  the first two characters that differ, as unsigned chars, and 0 if there is none.
\<close>

function strncmp :: "buffer \<Rightarrow> int \<Rightarrow> string \<Rightarrow> int \<Rightarrow> failure + int" where
  "strncmp buf p lit n =
     (if n \<le> 0 then Inr 0
      else
        (case peek buf p of
           Inl e \<Rightarrow> Inl e
         | Inr c1 \<Rightarrow>
            (let c2 = (case lit of [] \<Rightarrow> NUL | c # _ \<Rightarrow> c) in
             if c1 \<noteq> c2 then Inr (of_char c1 - of_char c2)
             else if c1 = NUL then Inr 0
             else strncmp buf (p + 1) (tl lit) (n - 1))))"
  by pat_completeness auto
termination
  by (relation "measure (\<lambda>(buf, p, lit, n). nat n)") auto

definition isspace :: "char \<Rightarrow> bool" where
  "isspace c \<longleftrightarrow> c = CHR '' '' \<or> (9 \<le> (of_char c :: int) \<and> (of_char c :: int) \<le> 13)"

definition isdigit :: "char \<Rightarrow> bool" where
  "isdigit c \<longleftrightarrow> 48 \<le> (of_char c :: int) \<and> (of_char c :: int) \<le> 57"

definition digit_val :: "char \<Rightarrow> int" where
  "digit_val c = of_char c - 48"

text \<open>
  \<^verbatim>\<open>strtol(p, NULL, 10)\<close> before the range check: white space is skipped, then an
  optional sign, then the decimal digits are accumulated up to the first character that
  is not one. The scan has no length limit: it ends at the first such character, or
  outside the file.
\<close>

function skip_space :: "buffer \<Rightarrow> int \<Rightarrow> failure + int" where
  "skip_space buf p =
     (case peek buf p of
        Inl e \<Rightarrow> Inl e
      | Inr c \<Rightarrow> if isspace c then skip_space buf (p + 1) else Inr p)"
  by pat_completeness auto
termination
  by (relation "measure (\<lambda>(buf, p). nat (int (length buf) - p))")
     (auto simp: peek_def split: if_splits)

function scan_digits :: "buffer \<Rightarrow> int \<Rightarrow> int \<Rightarrow> failure + int" where
  "scan_digits buf p acc =
     (case peek buf p of
        Inl e \<Rightarrow> Inl e
      | Inr c \<Rightarrow> if isdigit c then scan_digits buf (p + 1) (10 * acc + digit_val c)
                else Inr acc)"
  by pat_completeness auto
termination
  by (relation "measure (\<lambda>(buf, p, acc). nat (int (length buf) - p))")
     (auto simp: peek_def split: if_splits)

definition strtol10 :: "buffer \<Rightarrow> int \<Rightarrow> failure + int" where
  "strtol10 buf p =
     bnd (skip_space buf p) (\<lambda>q.
     bnd (peek buf q) (\<lambda>c.
       if c = CHR ''-'' then bnd (scan_digits buf (q + 1) 0) (\<lambda>v. Inr (- v))
       else if c = CHR ''+'' then scan_digits buf (q + 1) 0
       else scan_digits buf q 0))"

text \<open>
  \<^verbatim>\<open>atoi(p)\<close> is \<^verbatim>\<open>(int)strtol(p, NULL, 10)\<close>, and undefined when the value cannot be
  represented in an \<^verbatim>\<open>int\<close> (32 bits).
\<close>

definition atoi :: "buffer \<Rightarrow> int \<Rightarrow> failure + int" where
  "atoi buf p =
     bnd (strtol10 buf p) (\<lambda>v.
       if - (2 ^ 31) \<le> v \<and> v < 2 ^ 31 then Inr v else Inl Atoi_range)"

text \<open>
  \<^verbatim>\<open>strtoll(p, NULL, 10)\<close> is defined on every input: a value out of range is replaced
  by \<^verbatim>\<open>LLONG_MIN\<close> or \<^verbatim>\<open>LLONG_MAX\<close>.
\<close>

definition strtoll :: "buffer \<Rightarrow> int \<Rightarrow> failure + int" where
  "strtoll buf p = bnd (strtol10 buf p) (\<lambda>v. Inr (max (- (2 ^ 63)) (min (2 ^ 63 - 1) v)))"

subsection \<open>The archive header\<close>

text \<open>
  \<^verbatim>\<open>struct ar_hdr\<close> of \<^verbatim>\<open><ar.h>\<close>: \<^verbatim>\<open>ar_name[16]\<close>, \<^verbatim>\<open>ar_date[12]\<close>, \<^verbatim>\<open>ar_uid[6]\<close>,
  \<^verbatim>\<open>ar_gid[6]\<close>, \<^verbatim>\<open>ar_mode[8]\<close>, \<^verbatim>\<open>ar_size[10]\<close>, \<^verbatim>\<open>ar_fmag[2]\<close>, 60 bytes in all. The
  constants below are the offsets of the fields in the record and the literals of
  \<^verbatim>\<open><ar.h>\<close>, \<^verbatim>\<open><mach-o/ranlib.h>\<close> and \<^verbatim>\<open><mach-o/fat.h>\<close>.
\<close>

definition sizeof_ar_hdr :: int where "sizeof_ar_hdr = 60"
definition sizeof_ar_name :: int where "sizeof_ar_name = 16"
definition ar_date :: int where "ar_date = 16"
definition ar_uid :: int where "ar_uid = 28"
definition ar_gid :: int where "ar_gid = 34"
definition ar_mode :: int where "ar_mode = 40"
definition ar_size :: int where "ar_size = 48"
definition ar_fmag :: int where "ar_fmag = 58"

definition ARMAG :: string where "ARMAG = ''!<arch>'' @ [CHR 0x0A]"
definition SARMAG :: int where "SARMAG = 8"
definition ARFMAG :: string where "ARFMAG = [CHR 0x60, CHR 0x0A]"
definition AR_EFMT1 :: string where "AR_EFMT1 = ''#1/''"
definition SYMDEF :: string where "SYMDEF = ''__.SYMDEF''"
definition SYMDEF_SORTED :: string where "SYMDEF_SORTED = ''__.SYMDEF SORTED''"
definition FAT_MAGIC :: int where "FAT_MAGIC = 0xcafebabe"
definition FAT_CIGAM :: int where "FAT_CIGAM = 0xbebafeca"
definition sizeof_ranlib :: int where "sizeof_ranlib = 8"

subsection \<open>arobj\_name\<close>

text \<open>
  The loop of the direct branch,
  \<^verbatim>\<open>for (int i = 0; header->ar_name[i] && i < sizeof(header->ar_name); ++i) ++*out_len;\<close>
  The byte is read before the index is compared with the width of the field.
\<close>

function name_loop :: "buffer \<Rightarrow> int \<Rightarrow> int \<Rightarrow> failure + int" where
  "name_loop buf header i =
     (case peek buf (header + i) of
        Inl e \<Rightarrow> Inl e
      | Inr c \<Rightarrow> if c \<noteq> NUL \<and> i < sizeof_ar_name then name_loop buf header (i + 1)
                else Inr i)"
  by pat_completeness auto
termination
  by (relation "measure (\<lambda>(buf, header, i). nat (sizeof_ar_name - i))") auto

text \<open>The conversion of an \<^verbatim>\<open>int\<close> to \<^verbatim>\<open>size_t\<close> (64 bits).\<close>

definition size_t_of_int :: "int \<Rightarrow> int" where
  "size_t_of_int v = v mod 2 ^ 64"

text \<open>
  The result is \<open>(is_bsd_name, out_name, out_len)\<close>: whether the name is a BSD extended
  name, the offset of its first byte, and its length.
\<close>

definition arobj_name :: "buffer \<Rightarrow> int \<Rightarrow> failure + (bool \<times> int \<times> int)" where
  "arobj_name buf header =
     bnd (strncmp buf header AR_EFMT1 (int (length AR_EFMT1))) (\<lambda>r.
       if r \<noteq> 0 then
         bnd (name_loop buf header 0) (\<lambda>len. Inr (False, header, len))
       else
         bnd (atoi buf (header + int (length AR_EFMT1))) (\<lambda>v.
           Inr (True, header + sizeof_ar_hdr, size_t_of_int v)))"

subsection \<open>Standard output and the state of the program\<close>

text \<open>
  The program's mutable state: the global \<^verbatim>\<open>g_verbose\<close> and what has been written to
  standard output. A procedure either returns or stops the program (\<^verbatim>\<open>fatal\<close>, which
  calls \<^verbatim>\<open>exit(1)\<close>, or undefined behaviour).
\<close>

record state =
  g_verbose :: bool
  out :: string

datatype status = Returned | Stopped failure

type_synonym outcome = "status \<times> state"

definition return :: "state \<Rightarrow> outcome" where
  "return s = (Returned, s)"

definition fatal :: "failure \<Rightarrow> state \<Rightarrow> outcome" where
  "fatal e s = (Stopped e, s)"

definition printf :: "string \<Rightarrow> state \<Rightarrow> outcome" where
  "printf str s = (Returned, out_update (\<lambda>written. written @ str) s)"

text \<open>A value read from the file, then the statements that use it.\<close>

definition rd :: "failure + 'a \<Rightarrow> ('a \<Rightarrow> state \<Rightarrow> outcome) \<Rightarrow> state \<Rightarrow> outcome" where
  "rd m f s = (case m of Inl e \<Rightarrow> (Stopped e, s) | Inr x \<Rightarrow> f x s)"

text \<open>Statements in sequence; the first that stops the program ends the sequence.\<close>

fun block :: "(state \<Rightarrow> outcome) list \<Rightarrow> state \<Rightarrow> outcome" where
  "block [] s = (Returned, s)"
| "block (c # cs) s =
     (case c s of
        (Returned, s') \<Rightarrow> block cs s'
      | (Stopped e, s') \<Rightarrow> (Stopped e, s'))"

text \<open>The conversions \<^verbatim>\<open>%d\<close> (of a value that is not negative) and \<^verbatim>\<open>%x\<close>.\<close>

function dec :: "int \<Rightarrow> string" where
  "dec n = (if n < 10 then [char_of (48 + n)]
            else dec (n div 10) @ [char_of (48 + n mod 10)])"
  by pat_completeness auto
termination
  by (relation "measure nat") auto

function hex :: "int \<Rightarrow> string" where
  "hex n = (if n < 16 then [''0123456789abcdef'' ! nat n]
            else hex (n div 16) @ [''0123456789abcdef'' ! nat (n mod 16)])"
  by pat_completeness auto
termination
  by (relation "measure nat") auto

text \<open>
  The conversion \<^verbatim>\<open>%s\<close> of a pointer into the file: the characters up to the first NUL.
\<close>

function c_string :: "buffer \<Rightarrow> int \<Rightarrow> failure + string" where
  "c_string buf p =
     (case peek buf p of
        Inl e \<Rightarrow> Inl e
      | Inr c \<Rightarrow> if c = NUL then Inr []
                else (case c_string buf (p + 1) of Inl e \<Rightarrow> Inl e | Inr cs \<Rightarrow> Inr (c # cs)))"
  by pat_completeness auto
termination
  by (relation "measure (\<lambda>(buf, p). nat (int (length buf) - p))")
     (auto simp: peek_def split: if_splits)

subsection \<open>printn, mprintn\<close>

text \<open>
  \<^verbatim>\<open>for (int i = 0; i < n && str[i]; ++i) printf("%c", str[i]);\<close>
  Here the index is compared first, and the byte read only when the index is below
  \<open>n\<close>.
\<close>

function print_loop :: "buffer \<Rightarrow> int \<Rightarrow> int \<Rightarrow> int \<Rightarrow> state \<Rightarrow> outcome" where
  "print_loop buf str n i s =
     (if i < n then
        (case peek buf (str + i) of
           Inl e \<Rightarrow> (Stopped e, s)
         | Inr c \<Rightarrow> if c \<noteq> NUL then print_loop buf str n (i + 1) (snd (printf [c] s))
                   else (Returned, s))
      else (Returned, s))"
  by pat_completeness auto
termination
  by (relation "measure (\<lambda>(buf, str, n, i, s). nat (n - i))") auto

definition printn :: "buffer \<Rightarrow> int \<Rightarrow> int \<Rightarrow> state \<Rightarrow> outcome" where
  "printn buf str n = print_loop buf str n 0"

definition mprintn :: "string \<Rightarrow> buffer \<Rightarrow> int \<Rightarrow> int \<Rightarrow> state \<Rightarrow> outcome" where
  "mprintn m buf str n =
     block [printf m, print_loop buf str n 0, printf [CHR 0x0A]]"

text \<open>The conversion of a \<^verbatim>\<open>size_t\<close> to \<^verbatim>\<open>int\<close> (32 bits, two's complement).\<close>

definition int_of_size_t :: "int \<Rightarrow> int" where
  "int_of_size_t n =
     (let m = n mod 2 ^ 32 in if m < 2 ^ 31 then m else m - 2 ^ 32)"

subsection \<open>dump\_obj\<close>

definition dump_obj :: "buffer \<Rightarrow> int \<Rightarrow> state \<Rightarrow> outcome" where
  "dump_obj buf header =
     rd (arobj_name buf header) (\<lambda>(is_bsd_name, name, name_len).
       block [
         printf ''ar_name: '',
         printn buf name (int_of_size_t name_len),
         (if is_bsd_name then printf '' (extended BSD name)'' else return),
         printf [CHR 0x0A],
         mprintn ''ar_date: '' buf (header + ar_date) 12,
         mprintn ''ar_uid: '' buf (header + ar_uid) 6,
         mprintn ''ar_gid: '' buf (header + ar_gid) 6,
         mprintn ''ar_mode: '' buf (header + ar_mode) 8,
         mprintn ''ar_size: '' buf (header + ar_size) 10,
         mprintn ''ar_fmag: '' buf (header + ar_fmag) 2,
         rd (strncmp buf (header + ar_fmag) ARFMAG (int (length ARFMAG))) (\<lambda>r.
           if r \<noteq> 0 then fatal Fatal_fmag else return)])"

subsection \<open>arobj\_size\<close>

text \<open>
  The conversion to \<^verbatim>\<open>long long\<close> of the sum, which C computes in
  \<^verbatim>\<open>unsigned long long\<close> (modulo \<open>2 ^ 64\<close>).
\<close>

definition long_long_of :: "int \<Rightarrow> int" where
  "long_long_of v = (let m = v mod 2 ^ 64 in if m < 2 ^ 63 then m else m - 2 ^ 64)"

text \<open>
  The field is copied into a local array of 11 bytes whose last byte is set to NUL, and
  \<^verbatim>\<open>strtoll\<close> scans that array.
\<close>

definition arobj_size :: "buffer \<Rightarrow> int \<Rightarrow> failure + int" where
  "arobj_size buf header =
     bnd (memcpy buf (header + ar_size) 10) (\<lambda>field.
     bnd (strtoll (field @ [NUL]) 0) (\<lambda>v.
       Inr (long_long_of (v + sizeof_ar_hdr))))"

subsection \<open>dump\_symdefs\<close>

text \<open>
  A pointer plus a \<^verbatim>\<open>size_t\<close>, in a flat 64-bit address space: a \<^verbatim>\<open>size_t\<close> that came
  from a negative \<^verbatim>\<open>int\<close> moves the pointer backwards.
\<close>

definition ptr_add :: "int \<Rightarrow> int \<Rightarrow> int" where
  "ptr_add p n = p + long_long_of n"

text \<open>
  One iteration of the loop of \<^verbatim>\<open>dump_symdefs\<close>, for the entry at \<open>ranlib\<close>
  (\<^verbatim>\<open>ran_un.ran_strx\<close> at offset 0 of the entry, \<^verbatim>\<open>ran_off\<close> at offset 4).
  \<^verbatim>\<open>file_start\<close> is offset 0. \<^verbatim>\<open>malloc\<close> is taken to succeed; \<open>name_zero\<close> is the copy
  of the name followed by NUL, which \<^verbatim>\<open>%s\<close> prints up to its first NUL.
\<close>

definition symdef_entry :: "buffer \<Rightarrow> int \<Rightarrow> int \<Rightarrow> state \<Rightarrow> outcome" where
  "symdef_entry buf ranlib strtab =
     rd (read_u32 buf (ranlib + 4)) (\<lambda>ran_off.
     rd (arobj_name buf ran_off) (\<lambda>(is_bsd_name, name, name_len).
     rd (memcpy buf name name_len) (\<lambda>bytes.
     rd (read_u32 buf ranlib) (\<lambda>ran_strx.
     rd (c_string buf (strtab + ran_strx)) (\<lambda>sym.
       let name_zero = takeWhile (\<lambda>c. c \<noteq> NUL) (bytes @ [NUL]) in
       (\<lambda>s. if g_verbose s then
               printf (''ran_strx 0x'' @ hex ran_strx @ '': '' @ sym @
                       '', ran_off 0x'' @ hex ran_off @ '': '' @ name_zero @ [CHR 0x0A]) s
             else
               printf (sym @ '' '' @ name_zero @ [CHR 0x0A]) s))))))"

text \<open>\<^verbatim>\<open>for (int i = 0; i < nranlibs; ++i, ++ranlib)\<close>\<close>

function symdefs_loop :: "buffer \<Rightarrow> int \<Rightarrow> int \<Rightarrow> int \<Rightarrow> int \<Rightarrow> state \<Rightarrow> outcome" where
  "symdefs_loop buf ranlib strtab nranlibs i s =
     (if i < nranlibs then
        (case symdef_entry buf ranlib strtab s of
           (Returned, s') \<Rightarrow>
             symdefs_loop buf (ranlib + sizeof_ranlib) strtab nranlibs (i + 1) s'
         | (Stopped e, s') \<Rightarrow> (Stopped e, s'))
      else (Returned, s))"
  by pat_completeness auto
termination
  by (relation "measure (\<lambda>(buf, ranlib, strtab, nranlibs, i, s). nat (nranlibs - i))") auto

definition dump_symdefs :: "buffer \<Rightarrow> int \<Rightarrow> int \<Rightarrow> state \<Rightarrow> outcome" where
  "dump_symdefs buf header offset =
     (let data = ptr_add (header + sizeof_ar_hdr) offset in
      rd (read_u32 buf data) (\<lambda>ranlib_len.
        let nranlibs = ranlib_len div sizeof_ranlib;
            ranlib = data + 4;
            data' = data + ranlib_len + 4
        in block [
             (\<lambda>s. if g_verbose s then printf (dec nranlibs @ '' ranlibs'' @ [CHR 0x0A]) s
                  else return s),
             rd (read_u32 buf data') (\<lambda>strtab_len.
               symdefs_loop buf ranlib (data' + 4) nranlibs 0)]))"

subsection \<open>dump\<close>

text \<open>
  The test of the loop body,
  \<^verbatim>\<open>!strncmp(name, SYMDEF, name_len) || !strncmp(name, SYMDEF_SORTED, name_len)\<close>.
\<close>

definition is_symdef :: "buffer \<Rightarrow> int \<Rightarrow> int \<Rightarrow> failure + bool" where
  "is_symdef buf name name_len =
     bnd (strncmp buf name SYMDEF name_len) (\<lambda>r.
       if r = 0 then Inr True
       else bnd (strncmp buf name SYMDEF_SORTED name_len) (\<lambda>r'. Inr (r' = 0)))"

text \<open>The body of the loop of \<^verbatim>\<open>dump\<close>, up to the statement that advances the pointer.\<close>

definition dump_member :: "buffer \<Rightarrow> int \<Rightarrow> state \<Rightarrow> outcome" where
  "dump_member buf header =
     block [
       (\<lambda>s. if g_verbose s then dump_obj buf header s else return s),
       rd (arobj_name buf header) (\<lambda>(is_bsd_name, name, name_len).
       rd (is_symdef buf name name_len) (\<lambda>t.
         if t then dump_symdefs buf header (if is_bsd_name then name_len else 0)
         else return))]"

text \<open>
  \<^verbatim>\<open>while (contents < contents_end) { ...; contents += arobj_size(header); }\<close>
  Nothing in the source bounds the number of iterations, so the loop is a partial
  function: \<open>None\<close> is a run that never leaves the loop.
\<close>

partial_function (option) dump_loop :: "buffer \<Rightarrow> int \<Rightarrow> state \<Rightarrow> outcome option" where
  "dump_loop buf contents s =
     (if contents < int (length buf) then
        (case dump_member buf contents s of
           (Stopped e, s') \<Rightarrow> Some (Stopped e, s')
         | (Returned, s') \<Rightarrow>
            (case arobj_size buf contents of
               Inl e \<Rightarrow> Some (Stopped e, s')
             | Inr n \<Rightarrow> dump_loop buf (contents + n) s'))
      else Some (Returned, s))"

declare dump_loop.simps [code]

text \<open>The statements of \<^verbatim>\<open>dump\<close> before the loop.\<close>

definition check_magic :: "buffer \<Rightarrow> state \<Rightarrow> outcome" where
  "check_magic buf =
     rd (strncmp buf 0 ARMAG SARMAG) (\<lambda>r.
       if r \<noteq> 0 then
         rd (read_u32 buf 0) (\<lambda>v.
           block [
             (if v = FAT_MAGIC \<or> v = FAT_CIGAM then fatal Fatal_fat else return),
             fatal Fatal_magic])
       else return)"

definition dump :: "buffer \<Rightarrow> state \<Rightarrow> outcome option" where
  "dump buf s =
     (case check_magic buf s of
        (Stopped e, s') \<Rightarrow> Some (Stopped e, s')
      | (Returned, s') \<Rightarrow> dump_loop buf SARMAG s')"

section \<open>Vocabulary of the properties\<close>


text \<open>
  The direct name as the specification describes it: the name field, cut at its first NUL
  byte or at its width of 16 bytes.
\<close>

definition direct_name :: "buffer \<Rightarrow> int \<Rightarrow> string" where
  "direct_name buf header =
     takeWhile (\<lambda>c. c \<noteq> NUL) (take 16 (drop (nat header) buf))"

text \<open>
  The state after \<open>w\<close> has been written to standard output, and the procedures whose
  status and written text are the same in any two states that agree on \<^verbatim>\<open>g_verbose\<close>,
  and which change nothing but standard output.
\<close>

definition wrote :: "string \<Rightarrow> state \<Rightarrow> state" where
  "wrote w s = out_update (\<lambda>written. written @ w) s"

definition uniform :: "(state \<Rightarrow> outcome) \<Rightarrow> bool" where
  "uniform p \<longleftrightarrow>
     (\<forall>s t. g_verbose s = g_verbose t \<longrightarrow>
        (\<exists>st w. p s = (st, wrote w s) \<and> p t = (st, wrote w t)))"

section \<open>Example files\<close>

text \<open>
  Inputs on which the theorems below are instantiated: a field of a given width, padded
  with spaces; a header with the given name, size and terminator fields; a 32-bit value
  in the byte order that \<open>read_u32\<close> reads.
\<close>

definition pad :: "nat \<Rightarrow> string \<Rightarrow> string" where
  "pad n str = str @ replicate (n - length str) (CHR '' '')"

definition mk_hdr :: "string \<Rightarrow> string \<Rightarrow> string \<Rightarrow> string" where
  "mk_hdr name sz fmag =
     pad 16 name @ pad 12 ''0'' @ pad 6 ''0'' @ pad 6 ''0'' @ pad 8 ''644'' @ pad 10 sz @ fmag"

definition u32 :: "int \<Rightarrow> string" where
  "u32 n = map (\<lambda>i. char_of (n div 256 ^ i)) [0, 1, 2, 3]"

definition quiet :: state where
  "quiet = \<lparr>g_verbose = False, out = []\<rparr>"

definition verbose :: state where
  "verbose = \<lparr>g_verbose = True, out = []\<rparr>"


text \<open>
  One member \<^verbatim>\<open>foo.o\<close> of 4 bytes, its name ended by a NUL; the same member with a name
  field that declares an extended name of 20 bytes, of which the file holds 4; a file
  that starts with the magic number of a fat binary, in each byte order; a member whose
  name field starts with a NUL, and one whose name field is the bare marker.
\<close>

definition plain_file :: string where
  "plain_file = ARMAG @ mk_hdr (''foo.o'' @ [NUL]) ''4'' ARFMAG @ ''abcd''"

definition long_name_file :: string where
  "long_name_file = ARMAG @ mk_hdr ''#1/20'' ''4'' ARFMAG @ ''abcd''"

definition fat_file :: string where
  "fat_file = [CHR 0xCA, CHR 0xFE, CHR 0xBA, CHR 0xBE] @ u32 2 @ ''abcd''"

definition fat_file_swapped :: string where
  "fat_file_swapped = [CHR 0xBE, CHR 0xBA, CHR 0xFE, CHR 0xCA] @ u32 2 @ ''abcd''"

definition empty_name_file :: string where
  "empty_name_file = ARMAG @ mk_hdr [NUL] ''0'' ARFMAG"

definition bare_marker_file :: string where
  "bare_marker_file = ARMAG @ mk_hdr ''#1/'' ''0'' ARFMAG"

text \<open>
  A member whose size field is \<^verbatim>\<open>-60\<close>; a member named \<^verbatim>\<open>_\<close> whose payload has the layout of
  a symbol index with one entry; a member whose terminator field is \<^verbatim>\<open>xx\<close>, followed by
  an index member with one entry that refers to it.
\<close>

definition loop_file :: string where
  "loop_file = ARMAG @ mk_hdr (''foo.o'' @ [NUL]) ''-60'' ARFMAG"

definition underscore_file :: string where
  "underscore_file =
     ARMAG @ mk_hdr [CHR ''_'', NUL] ''24'' ARFMAG @
     u32 8 @ u32 0 @ u32 8 @ u32 8 @ ''_main'' @ [NUL, NUL, NUL]"



section \<open>Basic facts\<close>

declare strncmp.simps [simp del] skip_space.simps [simp del] scan_digits.simps [simp del]
  name_loop.simps [simp del] c_string.simps [simp del] print_loop.simps [simp del]
  symdefs_loop.simps [simp del] dec.simps [simp del] hex.simps [simp del]

lemmas ar_consts =
  sizeof_ar_hdr_def sizeof_ar_name_def ar_date_def ar_uid_def ar_gid_def ar_mode_def
  ar_size_def ar_fmag_def ARMAG_def SARMAG_def ARFMAG_def AR_EFMT1_def SYMDEF_def
  SYMDEF_SORTED_def FAT_MAGIC_def FAT_CIGAM_def sizeof_ranlib_def

subsection \<open>Every failure of a read is undefined behaviour\<close>


lemma bnd_Inr: "bnd m f = Inr y \<Longrightarrow> \<exists>x. m = Inr x \<and> f x = Inr y"
  by (cases m) (simp_all add: bnd_def)

lemma bnd_simps [simp]: "bnd (Inl e) f = Inl e" "bnd (Inr x) f = f x"
  by (simp_all add: bnd_def)

















subsection \<open>Comparison with a literal, and the direct name\<close>

lemma strncmp_literal:
  assumes "0 \<le> p" "p + int (length lit) \<le> int (length buf)" "NUL \<notin> set lit"
  shows "\<exists>r. strncmp buf p lit (int (length lit)) = Inr r \<and>
             (r = 0 \<longleftrightarrow> take (length lit) (drop (nat p) buf) = lit)"
  using assms
proof (induction lit arbitrary: p)
  case Nil
  then show ?case by (simp add: strncmp.simps)
next
  case (Cons c cs)
  let ?a = "buf ! nat p"
  have pk: "peek buf p = Inr ?a"
    using Cons.prems by (simp add: peek_def)
  have dr: "drop (nat p) buf = ?a # drop (nat (p + 1)) buf"
  proof -
    have "nat p < length buf" using Cons.prems by simp
    moreover have "Suc (nat p) = nat (p + 1)" using Cons.prems by simp
    ultimately show ?thesis by (metis Cons_nth_drop_Suc)
  qed
  have c: "c \<noteq> NUL" using Cons.prems by auto
  show ?case
  proof (cases "?a = c")
    case True
    have "strncmp buf p (c # cs) (int (length (c # cs))) =
            strncmp buf (p + 1) cs (int (length cs))"
      using True c pk by (subst strncmp.simps) (simp add: Let_def)
    moreover from Cons.IH [of "p + 1"] Cons.prems
    obtain r where "strncmp buf (p + 1) cs (int (length cs)) = Inr r"
      "r = 0 \<longleftrightarrow> take (length cs) (drop (nat (p + 1)) buf) = cs"
      by auto
    ultimately show ?thesis using True by (simp add: dr)
  next
    case False
    have "strncmp buf p (c # cs) (int (length (c # cs))) = Inr (of_char ?a - of_char c)"
      using False pk by (subst strncmp.simps) (simp add: Let_def)
    then show ?thesis using False by (simp add: dr)
  qed
qed

lemma strncmp_marker:
  assumes "0 \<le> p" "p + 3 \<le> int (length buf)"
  shows "\<exists>r. strncmp buf p AR_EFMT1 3 = Inr r \<and>
             (r = 0 \<longleftrightarrow> take 3 (drop (nat p) buf) = AR_EFMT1)"
  using strncmp_literal [of p AR_EFMT1 buf] assms
  by (simp add: AR_EFMT1_def NUL_def numeral_3_eq_3)

lemma name_loop_eq:
  assumes "0 \<le> header" "header + 16 < int (length buf)" "0 \<le> i" "i \<le> 16"
  shows "name_loop buf header i =
           Inr (i + int (length (takeWhile (\<lambda>c. c \<noteq> NUL)
                                   (take (nat (16 - i)) (drop (nat (header + i)) buf)))))"
  using assms
proof (induction buf header i rule: name_loop.induct)
  case (1 buf header i)
  let ?c = "buf ! nat (header + i)"
  have pk: "peek buf (header + i) = Inr ?c"
    using "1.prems" by (simp add: peek_def)
  have dr: "drop (nat (header + i)) buf = ?c # drop (nat (header + (i + 1))) buf"
  proof -
    have "nat (header + i) < length buf" using "1.prems" by simp
    moreover have "Suc (nat (header + i)) = nat (header + (i + 1))"
      using "1.prems" by simp
    ultimately show ?thesis by (metis Cons_nth_drop_Suc)
  qed
  show ?case
  proof (cases "?c \<noteq> NUL \<and> i < sizeof_ar_name")
    case True
    then have lt: "i < 16" by (simp add: sizeof_ar_name_def)
    have tk: "take (nat (16 - i)) (?c # drop (nat (header + (i + 1))) buf)
                = ?c # take (nat (16 - (i + 1))) (drop (nat (header + (i + 1))) buf)"
    proof -
      from lt "1.prems" have "nat (16 - i) = Suc (nat (16 - (i + 1)))" by simp
      then show ?thesis by simp
    qed
    have "name_loop buf header i = name_loop buf header (i + 1)"
      using True pk by (subst name_loop.simps) simp
    also have "\<dots> = Inr (i + 1 + int (length (takeWhile (\<lambda>c. c \<noteq> NUL)
                 (take (nat (16 - (i + 1))) (drop (nat (header + (i + 1))) buf)))))"
      using "1.IH" [OF pk True] "1.prems" lt by simp
    finally show ?thesis using True by (simp add: dr tk)
  next
    case False
    then have stop: "name_loop buf header i = Inr i"
      using pk by (subst name_loop.simps) auto
    from False consider "?c = NUL" | "i = 16"
      using "1.prems" by (auto simp: sizeof_ar_name_def)
    then show ?thesis
    proof cases
      case 1
      then show ?thesis using stop by (cases "nat (16 - i)") (simp_all add: dr)
    next
      case 2
      then show ?thesis using stop by simp
    qed
  qed
qed

lemma arobj_name_not_marker:
  assumes "0 \<le> header" "header + sizeof_ar_hdr \<le> int (length buf)"
      and "take 3 (drop (nat header) buf) \<noteq> AR_EFMT1"
  shows "arobj_name buf header = Inr (False, header, int (length (direct_name buf header))) \<and>
         int (length (direct_name buf header)) \<le> sizeof_ar_name \<and>
         NUL \<notin> set (direct_name buf header)"
proof -
  from assms(1,2) have b3: "header + 3 \<le> int (length buf)"
    and b16: "header + 16 < int (length buf)"
    by (simp_all add: sizeof_ar_hdr_def)
  from strncmp_marker [OF assms(1) b3] assms(3)
  obtain r where r: "strncmp buf header AR_EFMT1 3 = Inr r" "r \<noteq> 0" by auto
  have nl: "name_loop buf header 0 = Inr (int (length (direct_name buf header)))"
    using name_loop_eq [OF assms(1) b16, of 0] by (simp add: direct_name_def)
  have "length (direct_name buf header) \<le> length (take 16 (drop (nat header) buf))"
    unfolding direct_name_def by (rule length_takeWhile_le)
  then have le: "int (length (direct_name buf header)) \<le> sizeof_ar_name"
    by (simp add: sizeof_ar_name_def)
  have nonul: "NUL \<notin> set (direct_name buf header)"
    unfolding direct_name_def by (auto dest: set_takeWhileD)
  from r nl le nonul show ?thesis
    by (simp add: arobj_name_def AR_EFMT1_def)
qed

subsection \<open>The magic number, the index test, and a loop that does not end\<close>

lemma check_magic_fat:
  assumes "buf = [a, b, c, d] @ rest"
      and "a \<noteq> CHR ''!''"
      and "le32 [a, b, c, d] = FAT_MAGIC \<or> le32 [a, b, c, d] = FAT_CIGAM"
  shows "check_magic buf s = (Stopped Fatal_fat, s)"
proof -
  have cmp: "strncmp buf 0 ARMAG SARMAG = Inr (of_char a - of_char (CHR ''!''))"
    using assms(1,2)
    by (subst strncmp.simps) (simp add: peek_def ARMAG_def SARMAG_def Let_def)
  have nz: "of_char a - of_char (CHR ''!'') \<noteq> (0::int)"
    using assms(2) by (simp del: of_char_Char) 
  have rd4: "read_u32 buf 0 = Inr (le32 [a, b, c, d])"
    using assms(1) by (simp add: read_u32_def memcpy_def)
  show ?thesis
    unfolding check_magic_def using assms(3) nz
    by (auto simp add: rd_def cmp rd4 fatal_def simp del: of_char_Char)
qed

lemma is_symdef_0: "is_symdef buf name 0 = Inr True"
  by (simp add: is_symdef_def strncmp.simps)

lemma loop_file_step:
  "8 < length loop_file"
  "dump_member loop_file 8 quiet = (Returned, quiet)"
  "arobj_size loop_file 8 = Inr 0"
  by code_simp+

lemma loop_file_no_result:
  assumes "dump_loop buf contents s = Some y"
  shows "\<not> (buf = loop_file \<and> contents = 8 \<and> s = quiet)"
proof (rule dump_loop.raw_induct
    [where P = "\<lambda>buf contents s y. \<not> (buf = loop_file \<and> contents = 8 \<and> s = quiet)",
     OF _ assms])
  fix f buf contents s y
  assume IH: "\<And>buf contents s y. f buf contents s = Some y \<Longrightarrow>
                \<not> (buf = loop_file \<and> contents = 8 \<and> s = quiet)"
    and body: "(if contents < int (length buf) then
                 (case dump_member buf contents s of
                    (Stopped e, s') \<Rightarrow> Some (Stopped e, s')
                  | (Returned, s') \<Rightarrow>
                     (case arobj_size buf contents of
                        Inl e \<Rightarrow> Some (Stopped e, s')
                      | Inr n \<Rightarrow> f buf (contents + n) s'))
               else Some (Returned, s)) = Some y"
  show "\<not> (buf = loop_file \<and> contents = 8 \<and> s = quiet)"
  proof
    assume "buf = loop_file \<and> contents = 8 \<and> s = quiet"
    with body have "f loop_file 8 quiet = Some y"
      by (simp add: loop_file_step)
    from IH [OF this] show False by simp
  qed
qed

text \<open>
  The loop returns whenever every step that \<^verbatim>\<open>arobj_size\<close> can give from the current
  offset onwards is positive: the only runs that do not return take a step that is zero
  or negative.
\<close>

lemma dump_loop_returns:
  "\<forall>c n. contents \<le> c \<longrightarrow> arobj_size buf c = Inr n \<longrightarrow> 0 < n \<Longrightarrow>
     \<exists>r. dump_loop buf contents s = Some r"
proof (induction "nat (int (length buf) - contents)" arbitrary: contents s rule: less_induct)
  case less
  show ?case
  proof (cases "contents < int (length buf)")
    case False
    then show ?thesis by (subst dump_loop.simps) simp
  next
    case True
    obtain st s' where m: "dump_member buf contents s = (st, s')"
      by (cases "dump_member buf contents s")
    show ?thesis
    proof (cases st)
      case (Stopped e)
      with True m show ?thesis by (subst dump_loop.simps) simp
    next
      case Returned
      show ?thesis
      proof (cases "arobj_size buf contents")
        case (Inl e)
        with True m Returned show ?thesis by (subst dump_loop.simps) simp
      next
        case (Inr n)
        with less.prems have pos: "0 < n" by auto
        with True have "nat (int (length buf) - (contents + n)) < nat (int (length buf) - contents)"
          by simp
        moreover have "\<forall>c k. contents + n \<le> c \<longrightarrow> arobj_size buf c = Inr k \<longrightarrow> 0 < k"
        proof (intro allI impI)
          fix c k
          assume "contents + n \<le> c" and k: "arobj_size buf c = Inr k"
          with pos have "contents \<le> c" by simp
          with less.prems k show "0 < k" by blast
        qed
        ultimately obtain r where "dump_loop buf (contents + n) s' = Some r"
          using less.hyps [of "contents + n" s'] by blast
        with True m Returned Inr show ?thesis by (subst dump_loop.simps) simp
      qed
    qed
  qed
qed

subsection \<open>The verbose listing of a header\<close>







lemma printf_Returned [simp]: "fst (printf str s) = Returned"
  by (simp add: printf_def)

lemma return_Returned [simp]: "fst (return s) = Returned"
  by (simp add: return_def)









subsection \<open>The size field\<close>











subsection \<open>What a run depends on\<close>

lemma wrote_simps [simp]:
  "wrote w' (wrote w s) = wrote (w @ w') s"
  "g_verbose (wrote w s) = g_verbose s"
  "out (wrote w s) = out s @ w"
  by (simp_all add: wrote_def comp_def)

lemma wrote_Nil [simp]: "wrote [] s = s"
  by (simp add: wrote_def)

lemma uniformI:
  assumes "\<And>s t. g_verbose s = g_verbose t \<Longrightarrow> \<exists>st w. p s = (st, wrote w s) \<and> p t = (st, wrote w t)"
  shows "uniform p"
  using assms by (simp add: uniform_def)

lemma uniformD:
  assumes "uniform p" "g_verbose s = g_verbose t"
  obtains st w where "p s = (st, wrote w s)" "p t = (st, wrote w t)"
  using assms unfolding uniform_def by blast

lemma uniform_printf [simp]: "uniform (printf str)"
  by (rule uniformI) (auto simp: printf_def wrote_def)

lemma uniform_return [simp]: "uniform return"
proof (rule uniformI)
  fix s t :: state
  have "return s = (Returned, wrote [] s)" "return t = (Returned, wrote [] t)"
    by (simp_all add: return_def)
  then show "\<exists>st w. return s = (st, wrote w s) \<and> return t = (st, wrote w t)" by blast
qed

lemma uniform_fatal [simp]: "uniform (fatal e)"
proof (rule uniformI)
  fix s t :: state
  have "fatal e s = (Stopped e, wrote [] s)" "fatal e t = (Stopped e, wrote [] t)"
    by (simp_all add: fatal_def)
  then show "\<exists>st w. fatal e s = (st, wrote w s) \<and> fatal e t = (st, wrote w t)" by blast
qed

lemma uniform_rd:
  assumes "\<And>x. uniform (f x)"
  shows "uniform (rd m f)"
proof (cases m)
  case (Inl e)
  show ?thesis
  proof (rule uniformI)
    fix s t :: state
    have "rd m f s = (Stopped e, wrote [] s)" "rd m f t = (Stopped e, wrote [] t)"
      using Inl by (simp_all add: rd_def)
    then show "\<exists>st w. rd m f s = (st, wrote w s) \<and> rd m f t = (st, wrote w t)" by blast
  qed
next
  case (Inr x)
  then have "rd m f = f x" by (intro ext) (simp add: rd_def)
  with assms show ?thesis by simp
qed

lemma uniform_block:
  assumes "\<forall>c \<in> set cs. uniform c"
  shows "uniform (block cs)"
  using assms
proof (induction cs)
  case Nil
  have "block [] = return" by (intro ext) (simp add: return_def)
  then show ?case by simp
next
  case (Cons c cs)
  then have c: "uniform c" and cs: "uniform (block cs)" by simp_all
  show ?case
  proof (rule uniformI)
    fix s t :: state
    assume v: "g_verbose s = g_verbose t"
    from c v obtain st w where 1: "c s = (st, wrote w s)" "c t = (st, wrote w t)"
      by (rule uniformD)
    show "\<exists>st w. block (c # cs) s = (st, wrote w s) \<and> block (c # cs) t = (st, wrote w t)"
    proof (cases st)
      case Returned
      from v have "g_verbose (wrote w s) = g_verbose (wrote w t)" by simp
      with cs obtain st' w' where "block cs (wrote w s) = (st', wrote w' (wrote w s))"
        "block cs (wrote w t) = (st', wrote w' (wrote w t))"
        by (rule uniformD)
      with 1 Returned show ?thesis by auto
    next
      case (Stopped e)
      with 1 show ?thesis by auto
    qed
  qed
qed

lemma uniform_if_verbose:
  assumes "uniform a" "uniform b"
  shows "uniform (\<lambda>s. if g_verbose s then a s else b s)"
proof (rule uniformI)
  fix s t :: state
  assume v: "g_verbose s = g_verbose t"
  show "\<exists>st w. (if g_verbose s then a s else b s) = (st, wrote w s) \<and>
               (if g_verbose t then a t else b t) = (st, wrote w t)"
  proof (cases "g_verbose s")
    case True
    with v uniformD [OF assms(1) v] show ?thesis by (metis (full_types))
  next
    case False
    with v uniformD [OF assms(2) v] show ?thesis by (metis (full_types))
  qed
qed

lemma print_loop_uniform:
  "g_verbose s = g_verbose t \<Longrightarrow>
     \<exists>st w. print_loop buf str n i s = (st, wrote w s) \<and>
            print_loop buf str n i t = (st, wrote w t)"
proof (induction buf str n i s arbitrary: t rule: print_loop.induct)
  case (1 buf str n i s)
  have nil: "s = wrote [] s" "t = wrote [] t" by simp_all
  show ?case
  proof (cases "i < n")
    case False
    then have "print_loop buf str n i s = (Returned, wrote [] s)"
      "print_loop buf str n i t = (Returned, wrote [] t)"
      by (subst print_loop.simps; simp)+
    then show ?thesis by blast
  next
    case True
    show ?thesis
    proof (cases "peek buf (str + i)")
      case (Inl e)
      with True have "print_loop buf str n i s = (Stopped e, wrote [] s)"
        "print_loop buf str n i t = (Stopped e, wrote [] t)"
        by (subst print_loop.simps; simp)+
      then show ?thesis by blast
    next
      case (Inr c)
      show ?thesis
      proof (cases "c = NUL")
        case True
        with \<open>i < n\<close> Inr have "print_loop buf str n i s = (Returned, wrote [] s)"
          "print_loop buf str n i t = (Returned, wrote [] t)"
          by (subst print_loop.simps; simp)+
        then show ?thesis by blast
      next
        case False
        have ps: "snd (printf [c] s) = wrote [c] s" "snd (printf [c] t) = wrote [c] t"
          by (simp_all add: printf_def wrote_def)
        from "1.prems" have "g_verbose (snd (printf [c] s)) = g_verbose (wrote [c] t)"
          by (simp add: ps)
        from "1.IH" [OF \<open>i < n\<close> Inr False this]
        obtain st w where
          "print_loop buf str n (i + 1) (wrote [c] s) = (st, wrote ([c] @ w) s)"
          "print_loop buf str n (i + 1) (wrote [c] t) = (st, wrote ([c] @ w) t)"
          by (auto simp: ps)
        moreover have "print_loop buf str n i s = print_loop buf str n (i + 1) (wrote [c] s)"
          "print_loop buf str n i t = print_loop buf str n (i + 1) (wrote [c] t)"
          using \<open>i < n\<close> Inr False by (subst print_loop.simps; simp add: ps)+
        ultimately show ?thesis by metis
      qed
    qed
  qed
qed

lemma uniform_print_loop [simp]: "uniform (print_loop buf str n i)"
  by (rule uniformI) (rule print_loop_uniform)

lemma uniform_printn [simp]: "uniform (printn buf str n)"
  by (simp add: printn_def)

lemma uniform_mprintn [simp]: "uniform (mprintn m buf str n)"
  unfolding mprintn_def by (rule uniform_block) simp

lemma uniform_dump_obj [simp]: "uniform (dump_obj buf header)"
  unfolding dump_obj_def
  by (rule uniform_rd) (auto intro!: uniform_block uniform_rd)

lemma uniform_case_prod:
  "(\<And>a b. uniform (f a b)) \<Longrightarrow> uniform (case x of (a, b) \<Rightarrow> f a b)"
  by (cases x) simp

lemma uniform_symdef_entry [simp]: "uniform (symdef_entry buf ranlib strtab)"
  unfolding symdef_entry_def Let_def
  by (intro uniform_rd uniform_case_prod uniform_if_verbose uniform_printf)

lemma symdefs_loop_uniform:
  "g_verbose s = g_verbose t \<Longrightarrow>
     \<exists>st w. symdefs_loop buf ranlib strtab n i s = (st, wrote w s) \<and>
            symdefs_loop buf ranlib strtab n i t = (st, wrote w t)"
proof (induction buf ranlib strtab n i s arbitrary: t rule: symdefs_loop.induct)
  case (1 buf ranlib strtab n i s)
  show ?case
  proof (cases "i < n")
    case False
    then have "symdefs_loop buf ranlib strtab n i s = (Returned, wrote [] s)"
      "symdefs_loop buf ranlib strtab n i t = (Returned, wrote [] t)"
      by (subst symdefs_loop.simps; simp)+
    then show ?thesis by blast
  next
    case True
    from uniform_symdef_entry "1.prems"
    obtain st w where e: "symdef_entry buf ranlib strtab s = (st, wrote w s)"
      "symdef_entry buf ranlib strtab t = (st, wrote w t)"
      by (rule uniformD)
    show ?thesis
    proof (cases st)
      case (Stopped x)
      with True e have "symdefs_loop buf ranlib strtab n i s = (Stopped x, wrote w s)"
        "symdefs_loop buf ranlib strtab n i t = (Stopped x, wrote w t)"
        by (subst symdefs_loop.simps; simp)+
      then show ?thesis by blast
    next
      case Returned
      from "1.prems" have "g_verbose (wrote w s) = g_verbose (wrote w t)" by simp
      from "1.IH" [OF True e(1) [symmetric, unfolded Returned] refl this]
      obtain st' w' where
        "symdefs_loop buf (ranlib + sizeof_ranlib) strtab n (i + 1) (wrote w s) = (st', wrote (w @ w') s)"
        "symdefs_loop buf (ranlib + sizeof_ranlib) strtab n (i + 1) (wrote w t) = (st', wrote (w @ w') t)"
        by auto
      moreover have "symdefs_loop buf ranlib strtab n i s =
          symdefs_loop buf (ranlib + sizeof_ranlib) strtab n (i + 1) (wrote w s)"
        "symdefs_loop buf ranlib strtab n i t =
          symdefs_loop buf (ranlib + sizeof_ranlib) strtab n (i + 1) (wrote w t)"
        using True e Returned by (subst symdefs_loop.simps; simp)+
      ultimately show ?thesis by metis
    qed
  qed
qed

lemma uniform_symdefs_loop [simp]: "uniform (symdefs_loop buf ranlib strtab n i)"
  by (rule uniformI) (rule symdefs_loop_uniform)

lemma uniform_dump_symdefs [simp]: "uniform (dump_symdefs buf header offset)"
  unfolding dump_symdefs_def Let_def
  by (intro uniform_rd uniform_block ballI)
     (auto intro!: uniform_if_verbose uniform_rd)





section \<open>The symbol index is decoded without bounds checks\<close>




section \<open>Name resolution\<close>

text \<open>
  C8. For a header that lies in the buffer and whose name field does not begin with the
  extended-name marker, \<^verbatim>\<open>arobj_name\<close> returns a direct name that starts at the header;
  its length is the length of the name field cut at its first NUL byte or at 16 bytes, so
  it is at most 16 and the name holds no NUL.
\<close>

theorem arobj_name_direct:
  assumes "0 \<le> header" "header + sizeof_ar_hdr \<le> int (length buf)"
      and "take 3 (drop (nat header) buf) \<noteq> AR_EFMT1"
  shows "arobj_name buf header = Inr (False, header, int (length (direct_name buf header))) \<and>
         int (length (direct_name buf header)) \<le> sizeof_ar_name \<and>
         NUL \<notin> set (direct_name buf header)"
  using assms by (rule arobj_name_not_marker)

theorem arobj_name_direct_witness:
  "(0::int) \<le> 8 \<and> 8 + sizeof_ar_hdr \<le> int (length plain_file) \<and>
   take 3 (drop (nat 8) plain_file) \<noteq> AR_EFMT1 \<and>
   direct_name plain_file 8 = ''foo.o'' \<and>
   arobj_name plain_file 8 = Inr (False, 8, 5)"
proof -
  have h1: "(0::int) \<le> 8" by simp
  have h2: "8 + sizeof_ar_hdr \<le> int (length plain_file)" by code_simp
  have h3: "take 3 (drop (nat 8) plain_file) \<noteq> AR_EFMT1" by code_simp
  have nm: "direct_name plain_file 8 = ''foo.o''" by code_simp
  from arobj_name_direct [OF h1 h2 h3] h1 h2 h3 nm show ?thesis by simp
qed

text \<open>
  C2, as the code has it. For a name field that begins with the marker, \<^verbatim>\<open>arobj_name\<close>
  returns the offset that follows the header and the length \<open>L\<close> that \<^verbatim>\<open>atoi\<close> reads
  after the marker, converted to \<^verbatim>\<open>size_t\<close> (which is \<open>L\<close> itself unless \<open>L\<close> is
  negative). It does not compare \<open>L\<close> with the end of the buffer: the theorem assumes
  nothing about the length of the buffer beyond the marker.
\<close>

theorem arobj_name_extended:
  assumes "0 \<le> header" "header + 3 \<le> int (length buf)"
      and "take 3 (drop (nat header) buf) = AR_EFMT1"
      and "atoi buf (header + 3) = Inr L"
  shows "arobj_name buf header = Inr (True, header + sizeof_ar_hdr, size_t_of_int L) \<and>
         (0 \<le> L \<longrightarrow> size_t_of_int L = L)"
proof -
  from strncmp_marker [OF assms(1,2)] assms(3)
  have r: "strncmp buf header AR_EFMT1 3 = Inr 0" by auto
  have "L < 2 ^ 31"
    using assms(4) by (auto simp: atoi_def dest!: bnd_Inr split: if_splits)
  then have "0 \<le> L \<longrightarrow> size_t_of_int L = L"
    by (simp add: size_t_of_int_def)
  with r assms(4) show ?thesis
    by (simp add: arobj_name_def AR_EFMT1_def)
qed

theorem arobj_name_extended_witness:
  "(0::int) \<le> 8 \<and> 8 + 3 \<le> int (length long_name_file) \<and>
   take 3 (drop (nat 8) long_name_file) = AR_EFMT1 \<and>
   atoi long_name_file (8 + 3) = Inr 20 \<and>
   arobj_name long_name_file 8 = Inr (True, 68, 20)"
proof -
  have h1: "(0::int) \<le> 8" by simp
  have h2: "8 + 3 \<le> int (length long_name_file)" by code_simp
  have h3: "take 3 (drop (nat 8) long_name_file) = AR_EFMT1" by code_simp
  have h4: "atoi long_name_file (8 + 3) = Inr 20" by code_simp
  from arobj_name_extended [OF h1 h2 h3 h4] h1 h2 h3 h4 show ?thesis
    by (simp add: sizeof_ar_hdr_def)
qed

text \<open>
  C2 as the specification states it fails: the file is 72 bytes long, the name declared
  by the header at 8 would occupy the offsets 68 to 87, and resolution returns it.
\<close>

theorem extended_name_past_end_counterexample:
  "int (length long_name_file) = 72 \<and>
   arobj_name long_name_file 8 = Inr (True, 68, 20) \<and>
   dump long_name_file quiet = Some (Returned, quiet)"
  by code_simp

section \<open>The magic number of a fat binary\<close>

text \<open>
  C6. When the first four bytes of the buffer are the magic number of a fat binary, in
  either byte order, \<^verbatim>\<open>dump\<close> stops with the diagnostic for fat archives, whatever follows
  those bytes; nothing has been written and the loop over the members is not entered.
\<close>

theorem fat_magic_rejected:
  assumes "take 4 buf = [CHR 0xCA, CHR 0xFE, CHR 0xBA, CHR 0xBE] \<or>
           take 4 buf = [CHR 0xBE, CHR 0xBA, CHR 0xFE, CHR 0xCA]"
  shows "dump buf s = Some (Stopped Fatal_fat, s)"
proof -
  have split: "buf = take 4 buf @ drop 4 buf" by simp
  have be: "le32 [CHR 0xCA, CHR 0xFE, CHR 0xBA, CHR 0xBE] = FAT_CIGAM"
    by code_simp
  have le: "le32 [CHR 0xBE, CHR 0xBA, CHR 0xFE, CHR 0xCA] = FAT_MAGIC"
    by code_simp
  from assms have "check_magic buf s = (Stopped Fatal_fat, s)"
  proof
    assume t: "take 4 buf = [CHR 0xCA, CHR 0xFE, CHR 0xBA, CHR 0xBE]"
    with split have "buf = [CHR 0xCA, CHR 0xFE, CHR 0xBA, CHR 0xBE] @ drop 4 buf" by simp
    then show ?thesis by (rule check_magic_fat) (simp_all add: be)
  next
    assume t: "take 4 buf = [CHR 0xBE, CHR 0xBA, CHR 0xFE, CHR 0xCA]"
    with split have "buf = [CHR 0xBE, CHR 0xBA, CHR 0xFE, CHR 0xCA] @ drop 4 buf" by simp
    then show ?thesis by (rule check_magic_fat) (simp_all add: le)
  qed
  then show ?thesis by (simp add: dump_def)
qed

theorem fat_magic_rejected_witness:
  "take 4 fat_file = [CHR 0xCA, CHR 0xFE, CHR 0xBA, CHR 0xBE] \<and>
   dump fat_file verbose = Some (Stopped Fatal_fat, verbose) \<and>
   take 4 fat_file_swapped = [CHR 0xBE, CHR 0xBA, CHR 0xFE, CHR 0xCA] \<and>
   dump fat_file_swapped quiet = Some (Stopped Fatal_fat, quiet)"
proof -
  have h1: "take 4 fat_file = [CHR 0xCA, CHR 0xFE, CHR 0xBA, CHR 0xBE]" by code_simp
  have h2: "take 4 fat_file_swapped = [CHR 0xBE, CHR 0xBA, CHR 0xFE, CHR 0xCA]" by code_simp
  from fat_magic_rejected [OF disjI1, OF h1, of verbose]
       fat_magic_rejected [OF disjI2, OF h2, of quiet] h1 h2
  show ?thesis by simp
qed

section \<open>Members with an empty name\<close>

text \<open>
  C10. When the name that \<^verbatim>\<open>arobj_name\<close> resolves has length 0, both comparisons with
  the names of the index compare 0 bytes, so the test of the loop body holds and the body
  of the loop calls \<^verbatim>\<open>dump_symdefs\<close> on the member (with offset 0), after \<^verbatim>\<open>dump_obj\<close> in
  verbose mode.
\<close>

theorem empty_name_invokes_decoder:
  assumes "arobj_name buf header = Inr (is_bsd_name, name, 0)"
  shows "is_symdef buf name 0 = Inr True \<and>
         dump_member buf header s =
           block [\<lambda>s. if g_verbose s then dump_obj buf header s else return s,
                  dump_symdefs buf header 0] s"
proof -
  have "rd (arobj_name buf header) (\<lambda>(is_bsd_name, name, name_len).
          rd (is_symdef buf name name_len) (\<lambda>t.
            if t then dump_symdefs buf header (if is_bsd_name then name_len else 0)
            else return)) = dump_symdefs buf header 0"
    by (rule ext) (simp add: assms rd_def is_symdef_0)
  then show ?thesis
    by (simp only: dump_member_def is_symdef_0 simp_thms)
qed

theorem empty_name_invokes_decoder_witness:
  "arobj_name empty_name_file 8 = Inr (False, 8, 0) \<and>
   dump_member empty_name_file 8 quiet =
     block [\<lambda>s. if g_verbose s then dump_obj empty_name_file 8 s else return s,
            dump_symdefs empty_name_file 8 0] quiet \<and>
   arobj_name bare_marker_file 8 = Inr (True, 68, 0) \<and>
   dump_member bare_marker_file 8 quiet =
     block [\<lambda>s. if g_verbose s then dump_obj bare_marker_file 8 s else return s,
            dump_symdefs bare_marker_file 8 0] quiet"
proof -
  have h1: "arobj_name empty_name_file 8 = Inr (False, 8, 0)" by code_simp
  have h2: "arobj_name bare_marker_file 8 = Inr (True, 68, 0)" by code_simp
  from empty_name_invokes_decoder [OF h1, of quiet]
       empty_name_invokes_decoder [OF h2, of quiet] h1 h2
  show ?thesis by simp
qed

section \<open>The test for the index member\<close>

text \<open>
  C4 at a member whose name is \<^verbatim>\<open>_\<close>: the name is not one of the two names of the index,
  yet the test of the loop body holds, since \<^verbatim>\<open>strncmp\<close> compares one byte only, and the
  payload is decoded and printed as a symbol index.
\<close>

theorem prefix_name_decoded:
  "arobj_name underscore_file 8 = Inr (False, 8, 1) \<and>
   direct_name underscore_file 8 = ''_'' \<and>
   is_symdef underscore_file 8 1 = Inr True \<and>
   dump underscore_file quiet =
     Some (Returned, \<lparr>g_verbose = False, out = ''_main _'' @ [CHR 0x0A]\<rparr>)"
  by code_simp

section \<open>The loop over the members\<close>

text \<open>
  C5 at a member whose size field is \<^verbatim>\<open>-60\<close>: \<^verbatim>\<open>arobj_size\<close> is 0, the pointer does not
  move, and \<^verbatim>\<open>dump\<close> never returns.
\<close>

theorem negative_size_never_returns:
  "arobj_size loop_file 8 = Inr 0 \<and> dump loop_file quiet = None"
proof -
  have "check_magic loop_file quiet = (Returned, quiet)" by code_simp
  then have "dump loop_file quiet = dump_loop loop_file 8 quiet"
    by (simp add: dump_def SARMAG_def)
  moreover have "dump_loop loop_file 8 quiet = None"
    using loop_file_no_result [of loop_file 8 quiet] by (cases "dump_loop loop_file 8 quiet") auto
  ultimately show ?thesis by (simp add: loop_file_step)
qed

section \<open>The terminator field\<close>




section \<open>The step of the walker\<close>



section \<open>Determinism of the scan\<close>



end
